theory Spec2Isabelle
  imports Main "HOL-Library.AList"
begin

section \<open>Values, outcomes and fields\<close>

text \<open>
  Python values as the engine sees them: \<open>None\<close>, the sentinel \<open>omitted\<close> of
  \<open>cleancat.chausie.consts\<close>, any other object, and a class attribute read through an instance
  that does not carry the attribute itself (the \<open>Field\<close> object the class binds to that name).
  The second sentinel of \<open>consts\<close>, \<open>empty\<close>, marks a local variable that was not assigned yet;
  it is not a value of input data, and a variable that may still hold it is an \<open>option\<close>
  (\<open>None\<close> is \<open>empty\<close>).
\<close>

datatype 'a pyval = PyNone | Omitted | Obj 'a | ClassAttr string

datatype exn = ValueError string | AssertionError | AttributeError

text \<open>
  Modelled from the spec: \<open>cleancat/chausie/field.py\<close> (the classes \<open>Value\<close>, \<open>Error\<close>,
  \<open>ValidationError\<close> and \<open>Field\<close>) is not under src/. An Error is a message and a field path.
  A field's outcome is a Value wrapping the payload, or a failure whose \<open>flatten()\<close> gives its
  constituent Errors: the Error itself, or the inner Errors of a nested ValidationError, which
  \<open>clean\<close> only ever builds from a non-empty list. A failure carries no payload.
\<close>

datatype error = Error (msg: string) (field: "string list")

datatype 'a outcome = Value "'a pyval" | Errors error "error list"

fun flatten :: "'a outcome \<Rightarrow> error list" where
  "flatten (Errors e es) = e # es"

fun is_Value :: "'a outcome \<Rightarrow> bool" where
  "is_Value (Value v) = True"
| "is_Value (Errors e es) = False"

text \<open>\<open>results\<close> is a Python dict: insertion ordered, an assignment to a key that is
  already there keeps the key's position (\<open>AList.update\<close>).\<close>

type_synonym 'a results = "(string \<times> 'a outcome) list"

text \<open>
  The attributes of a \<open>Field\<close> that schema.py reads. \<open>run_validators\<close> is the field's own
  method (nullability policy and validator chain); schema.py calls it with the field path, the
  raw value, the context and the results so far.
\<close>

record ('a, 'c) Field =
  depends_on :: "string list"
  accepts :: "string list"
  run_validators :: "string list \<Rightarrow> 'a pyval \<Rightarrow> 'c \<Rightarrow> 'a results \<Rightarrow> 'a outcome"
  serialize_to :: "string option"
  serialize_func :: "'a pyval \<Rightarrow> 'a pyval"

text \<open>A class body is its assignments in source order; a member is a Field or anything
  else. \<open>cls.__dict__\<close> keeps one entry per name.\<close>

datatype ('a, 'c) member = FieldDef "('a, 'c) Field" | Other

type_synonym ('a, 'c) cls = "(string \<times> ('a, 'c) member) list"

type_synonym ('a, 'c) fields = "(string \<times> ('a, 'c) Field) list"

definition class_dict :: "('a, 'c) cls \<Rightarrow> (string \<times> ('a, 'c) member) list" where
  "class_dict body = fold (\<lambda>(name, m) d. AList.update name m d) body []"

fun the_fields :: "(string \<times> ('a, 'c) member) list \<Rightarrow> ('a, 'c) fields" where
  "the_fields [] = []"
| "the_fields ((field_name, FieldDef field_def) # rest) = (field_name, field_def) # the_fields rest"
| "the_fields ((field_name, Other) # rest) = the_fields rest"

definition get_fields :: "('a, 'c) cls \<Rightarrow> ('a, 'c) fields" where
  "get_fields cls = the_fields (class_dict cls)"

section \<open>Reading the input\<close>

text \<open>The input is a dict or any other object (with attributes).\<close>

datatype 'a data = Dict "string \<rightharpoonup> 'a pyval" | Object "string \<rightharpoonup> 'a pyval"

text \<open>Python's builtin \<open>getattr(obj, name, default)\<close>.\<close>

definition getattr :: "(string \<rightharpoonup> 'a pyval) \<Rightarrow> string \<Rightarrow> 'a pyval \<Rightarrow> 'a pyval" where
  "getattr attrs name dflt = (case attrs name of Some v \<Rightarrow> v | None \<Rightarrow> dflt)"

text \<open>\<open>getter\<close>: the \<open>else\<close> branch evaluates \<open>getattr\<close> and drops the result, so the
  function falls off its end and returns \<open>None\<close>.\<close>

fun getter :: "'a data \<Rightarrow> string \<Rightarrow> 'a pyval \<Rightarrow> 'a pyval" where
  "getter (Dict d) key dflt = (case d key of Some v \<Rightarrow> v | None \<Rightarrow> dflt)"
| "getter (Object attrs) key dflt = (let dropped = getattr attrs key dflt in PyNone)"

section \<open>Dependency check at definition time\<close>

definition unresolved :: exn where
  "unresolved = ValueError ''Field dependencies could not be resolved.''"

text \<open>One pass of the \<open>for\<close> loop picks the first pending field whose dependencies are
  all seen.\<close>

definition resolvable :: "string list \<Rightarrow> string \<times> string list \<Rightarrow> bool" where
  "resolvable seen = (\<lambda>(f_name, f_deps). f_deps = [] \<or> list_all (\<lambda>f_dep. f_dep \<in> set seen) f_deps)"

lemma length_delete_less:
  "(k, v) \<in> set al \<Longrightarrow> length (AList.delete k al) < length al"
  by (induction al) (auto simp: AList.delete_eq le_imp_less_Suc)

function check_loop :: "(string \<times> string list) list \<Rightarrow> string list \<Rightarrow> exn + unit" where
  "check_loop deps seen =
     (if deps = [] then Inr ()
      else let prog = length seen in
        (case find (resolvable seen) deps of
           None \<Rightarrow> Inl unresolved
         | Some (f_name, f_deps) \<Rightarrow>
             (let seen' = List.insert f_name seen;
                  deps' = AList.delete f_name deps
              in if length seen' = prog then Inl unresolved
                 else check_loop deps' seen')))"
  by pat_completeness auto

termination
proof (relation "measure (\<lambda>(deps, seen). length deps)", goal_cases)
  case 1
  show ?case by simp
next
  case (2 deps seen prog x2 f_name f_deps seen' deps')
  then have "(f_name, f_deps) \<in> set deps"
    by (auto simp: find_Some_iff in_set_conv_nth)
  then have "length (AList.delete f_name deps) < length deps"
    by (rule length_delete_less)
  with 2 show ?case
    by simp
qed

declare check_loop.simps [simp del]

definition p_check_for_dependency_loops :: "('a, 'c) cls \<Rightarrow> exn + unit" where
  "p_check_for_dependency_loops cls =
     check_loop (map (\<lambda>(name, f_def). (name, remdups (depends_on f_def))) (get_fields cls)) []"


text \<open>A decorated class: \<open>schema\<close> checks the dependencies and only then attaches
  \<open>__clean\<close>, \<open>__init__\<close> and \<open>__serialize\<close>. Fields inferred from bare annotations
  (\<open>autodef\<close>) come from the table of primitive validators in field.py and are taken as already
  present in the class body.\<close>

datatype ('a, 'c) schema_cls = Schema "('a, 'c) cls"

definition schema :: "('a, 'c) cls \<Rightarrow> exn + ('a, 'c) schema_cls" where
  "schema cls =
     (case p_check_for_dependency_loops cls of
        Inl e \<Rightarrow> Inl e
      | Inr u \<Rightarrow> Inr (Schema cls))"

section \<open>The evaluation loop\<close>

text \<open>Lines 80-84: \<open>value\<close> starts as \<open>empty\<close> and takes the result of \<open>getter\<close> for each
  accepted key until one is not \<open>omitted\<close>.\<close>

fun accept_loop :: "'a data \<Rightarrow> string list \<Rightarrow> 'a pyval option \<Rightarrow> 'a pyval option" where
  "accept_loop data [] val = val"
| "accept_loop data (accept # rest) val =
     (let val = getter data accept Omitted
      in if val \<noteq> Omitted then Some val else accept_loop data rest (Some val))"

definition read_value :: "'a data \<Rightarrow> string \<Rightarrow> ('a, 'c) Field \<Rightarrow> 'a pyval option" where
  "read_value data field_name field_def =
     (let accepts = (if accepts field_def = [] then [field_name] else accepts field_def)
      in accept_loop data accepts None)"

text \<open>\<open>dep in results and isinstance(results[dep], Value)\<close>\<close>

definition has_value :: "'a results \<Rightarrow> string \<Rightarrow> bool" where
  "has_value results dep = (case map_of results dep of Some (Value v) \<Rightarrow> True | _ \<Rightarrow> False)"

definition eligible :: "'a results \<Rightarrow> string list \<Rightarrow> string \<times> ('a, 'c) Field \<Rightarrow> bool" where
  "eligible results queued_fields =
     (\<lambda>(name, f). name \<notin> fst ` set results \<and> name \<notin> set queued_fields
        \<and> list_all (has_value results) (depends_on f))"

function eval_loop ::
  "('a, 'c) fields \<Rightarrow> 'a data \<Rightarrow> 'c \<Rightarrow> ('a, 'c) fields \<Rightarrow> 'a results \<Rightarrow> exn + 'a results" where
  "eval_loop delayed_eval data context eval_queue results =
     (if eval_queue = [] then Inr results
      else
        (case read_value data (fst (last eval_queue)) (snd (last eval_queue)) of
           None \<Rightarrow> Inl AssertionError
         | Some val \<Rightarrow>
             (let field_name = fst (last eval_queue);
                  field_def = snd (last eval_queue);
                  popped = butlast eval_queue;
                  results' = AList.update field_name
                     (run_validators field_def [field_name] val context results) results;
                  queued_fields = map fst popped
              in eval_loop delayed_eval data context
                   (popped @ filter (eligible results' queued_fields) delayed_eval) results')))"
  by pat_completeness auto


text \<open>What the loop still has to do: the delayed fields that are neither evaluated
  nor queued, and the queue.\<close>

definition pending :: "'a results \<Rightarrow> ('a, 'c) fields \<Rightarrow> string \<times> ('a, 'c) Field \<Rightarrow> bool" where
  "pending results eval_queue =
     (\<lambda>(name, f). name \<notin> fst ` set results \<and> name \<notin> fst ` set eval_queue)"

lemma length_filter_mono:
  "(\<And>x. x \<in> set xs \<Longrightarrow> P x \<Longrightarrow> Q x) \<Longrightarrow> length (filter P xs) \<le> length (filter Q xs)"
  by (induction xs) auto

lemma requeue_measure:
  "length (filter (pending rs (q @ filter (eligible rs (map fst q)) d)) d)
     + length (filter (eligible rs (map fst q)) d)
   \<le> length (filter (pending rs q) d)"
proof -
  let ?E = "eligible rs (map fst q)"
  have "length (filter (pending rs (q @ filter ?E d)) d)
      \<le> length (filter (\<lambda>x. pending rs q x \<and> \<not> ?E x) d)"
    by (rule length_filter_mono) (force simp: pending_def)
  moreover have "length (filter ?E d) = length (filter (\<lambda>x. pending rs q x \<and> ?E x) d)"
    by (rule arg_cong[where f=length], rule filter_cong) (auto simp: pending_def eligible_def)
  moreover have "length (filter (\<lambda>x. pending rs q x \<and> \<not> ?E x) d)
        + length (filter (\<lambda>x. pending rs q x \<and> ?E x) d)
      = length (filter (pending rs q) d)"
    using sum_length_filter_compl[of ?E "filter (pending rs q) d"]
    by (simp add: conj_commute add.commute)
  ultimately show ?thesis by linarith
qed

lemma pop_measure:
  assumes "q \<noteq> []"
  shows "length (filter (pending (AList.update (fst (last q)) v rs) (butlast q)) d)
     \<le> length (filter (pending rs q) d)"
proof (rule length_filter_mono)
  fix x assume "x \<in> set d" and p: "pending (AList.update (fst (last q)) v rs) (butlast q) x"
  have "set q = insert (last q) (set (butlast q))"
    using assms by (metis append_butlast_last_id list.simps(15) rotate1.simps(2) set_rotate1)
  with p show "pending rs q x"
    by (auto simp: pending_def dom_update split: prod.splits)
qed

termination eval_loop
proof (relation "measure (\<lambda>(d, data, ctx, q, rs). length (filter (pending rs q) d) + length q)",
    goal_cases)
  case 1
  show ?case by simp
next
  case (2 delayed_eval data ctx eval_queue results val field_name field_def popped results'
      queued_fields)
  have a: "length (filter (pending results'
              (popped @ filter (eligible results' queued_fields) delayed_eval)) delayed_eval)
     + length (filter (eligible results' queued_fields) delayed_eval)
   \<le> length (filter (pending results' popped) delayed_eval)"
    unfolding 2 by (rule requeue_measure)
  have b: "length (filter (pending results' popped) delayed_eval)
      \<le> length (filter (pending results eval_queue) delayed_eval)"
    unfolding 2 using 2(1) by (rule pop_measure)
  have c: "length popped < length eval_queue"
    using 2 by simp
  from a b c show ?case by simp
qed

declare eval_loop.simps [simp del]

section \<open>clean, the constructor and serialize\<close>

text \<open>The result of \<open>clean\<close>: an instance of the class (its instance attributes) or a
  ValidationError, both returned.\<close>

datatype ('a, 'c) cleaned =
    Instance "('a, 'c) cls" "string \<rightharpoonup> 'a pyval"
  | ValidationError "error list"

text \<open>\<open>_new_init\<close>: keeps the keyword arguments that name a field and sets each as an
  attribute.\<close>

definition p_new_init :: "('a, 'c) cls \<Rightarrow> (string \<times> 'a pyval) list \<Rightarrow> (string \<rightharpoonup> 'a pyval)" where
  "p_new_init cls kwargs =
     (let defined_fields = get_fields cls;
          attribs = filter (\<lambda>(k, v). k \<in> fst ` set defined_fields) kwargs
      in fold (\<lambda>(k, v) self. self(k \<mapsto> v)) attribs Map.empty)"

text \<open>\<open>{k: v.value for k, v in results.items()}\<close>: only a Value has a \<open>value\<close>.\<close>

fun value_of :: "'a outcome \<Rightarrow> exn + 'a pyval" where
  "value_of (Value v) = Inr v"
| "value_of (Errors e es) = Inl AttributeError"

fun kwargs_of :: "'a results \<Rightarrow> exn + (string \<times> 'a pyval) list" where
  "kwargs_of [] = Inr []"
| "kwargs_of ((k, v) # rest) =
     (case value_of v of
        Inl e \<Rightarrow> Inl e
      | Inr x \<Rightarrow> (case kwargs_of rest of Inl e \<Rightarrow> Inl e | Inr kw \<Rightarrow> Inr ((k, x) # kw)))"

definition collect_errors :: "'a results \<Rightarrow> error list" where
  "collect_errors results = concat (map flatten (filter (\<lambda>v. \<not> is_Value v) (map snd results)))"

definition run_loop :: "('a, 'c) cls \<Rightarrow> 'a data \<Rightarrow> 'c \<Rightarrow> exn + 'a results" where
  "run_loop cls data context =
     (let field_defs = get_fields cls;
          eval_queue = filter (\<lambda>(name, f). depends_on f = []) field_defs;
          delayed_eval = filter (\<lambda>(name, f). depends_on f \<noteq> []) field_defs
      in if length field_defs \<noteq> length eval_queue + length delayed_eval then Inl AssertionError
         else eval_loop delayed_eval data context eval_queue [])"

definition p_clean :: "('a, 'c) cls \<Rightarrow> 'a data \<Rightarrow> 'c \<Rightarrow> exn + ('a, 'c) cleaned" where
  "p_clean cls data context =
     (case run_loop cls data context of
        Inl e \<Rightarrow> Inl e
      | Inr results \<Rightarrow>
          (let errors = collect_errors results
           in if errors \<noteq> [] then Inr (ValidationError errors)
              else (case kwargs_of results of
                      Inl e \<Rightarrow> Inl e
                    | Inr kwargs \<Rightarrow> Inr (Instance cls (p_new_init cls kwargs)))))"

text \<open>\<open>_serialize\<close>: \<open>getattr(self, field_name)\<close> finds the instance attribute, or else
  the attribute of the class, which is the Field itself.\<close>

definition output_key :: "string \<Rightarrow> ('a, 'c) Field \<Rightarrow> string" where
  "output_key field_name field_def =
     (case serialize_to field_def of
        None \<Rightarrow> field_name
      | Some k \<Rightarrow> if k = [] then field_name else k)"

definition p_serialize :: "('a, 'c) cls \<Rightarrow> (string \<rightharpoonup> 'a pyval) \<Rightarrow> (string \<rightharpoonup> 'a pyval)" where
  "p_serialize cls self =
     fold (\<lambda>(field_name, field_def) out.
             out(output_key field_name field_def \<mapsto>
                 serialize_func field_def (getattr self field_name (ClassAttr field_name))))
       (get_fields cls) Map.empty"

definition clean :: "('a, 'c) schema_cls \<Rightarrow> 'a data \<Rightarrow> 'c \<Rightarrow> exn + ('a, 'c) cleaned" where
  "clean sch data context = (case sch of Schema cls \<Rightarrow> p_clean cls data context)"

text \<open>\<open>serialize\<close> calls the \<open>__serialize\<close> that \<open>schema\<close> attached to the class; a
  ValidationError has none.\<close>

fun serialize :: "('a, 'c) cleaned \<Rightarrow> exn + (string \<rightharpoonup> 'a pyval)" where
  "serialize (Instance cls self) = Inr (p_serialize cls self)"
| "serialize (ValidationError errors) = Inl AttributeError"


section \<open>The dependency relation and example classes\<close>

text \<open>\<open>(name, dep)\<close> is in the relation when the field \<open>name\<close> declares \<open>dep\<close> in its
  \<open>depends_on\<close>.\<close>

definition depends :: "('a, 'c) fields \<Rightarrow> (string \<times> string) set" where
  "depends field_defs =
     {(name, dep). \<exists>f. (name, f) \<in> set field_defs \<and> dep \<in> set (depends_on f)}"

text \<open>A field that accepts every value as it is, with the given dependencies.\<close>

definition accept_any :: "string list \<Rightarrow> (int, unit) Field" where
  "accept_any deps =
     \<lparr>depends_on = deps, accepts = [], run_validators = (\<lambda>fld v ctx rs. Value v),
      serialize_to = None, serialize_func = (\<lambda>v. v)\<rparr>"

definition cyclic_cls :: "(int, unit) cls" where
  "cyclic_cls = [(''a'', FieldDef (accept_any [''b''])), (''b'', FieldDef (accept_any [''a'']))]"

definition dangling_cls :: "(int, unit) cls" where
  "dangling_cls = [(''a'', FieldDef (accept_any [])), (''b'', FieldDef (accept_any [''zzz'']))]"

text \<open>A field that rejects every value; a class whose second field depends on the first, with
  a first field that accepts and with one that rejects; an input for both.\<close>

definition reject_all :: "(int, unit) Field" where
  "reject_all =
     \<lparr>depends_on = [], accepts = [],
      run_validators = (\<lambda>fld v ctx rs. Errors (Error ''Invalid.'' fld) []),
      serialize_to = None, serialize_func = (\<lambda>v. v)\<rparr>"

definition chain_cls :: "(int, unit) cls" where
  "chain_cls = [(''a'', FieldDef (accept_any [])), (''b'', FieldDef (accept_any [''a'']))]"

definition blocked_cls :: "(int, unit) cls" where
  "blocked_cls = [(''a'', FieldDef reject_all), (''b'', FieldDef (accept_any [''a'']))]"

definition sample_data :: "int data" where
  "sample_data = Dict [''a'' \<mapsto> Obj 1, ''b'' \<mapsto> Obj 2]"


section \<open>What the input gives for a key\<close>

text \<open>The claim's reading of the extraction: the value of the first accepted key that is
  present in the dict, \<open>omitted\<close> when none is.\<close>

definition claimed_first_present :: "(string \<rightharpoonup> 'a pyval) \<Rightarrow> string list \<Rightarrow> 'a pyval" where
  "claimed_first_present d keys =
     (case find (\<lambda>k. d k \<noteq> None) keys of Some k \<Rightarrow> the (d k) | None \<Rightarrow> Omitted)"

text \<open>A key is given when the dict maps it to something other than \<open>omitted\<close>.\<close>

definition given :: "(string \<rightharpoonup> 'a pyval) \<Rightarrow> string \<Rightarrow> bool" where
  "given d k = (case d k of Some v \<Rightarrow> v \<noteq> Omitted | None \<Rightarrow> False)"

definition first_given :: "(string \<rightharpoonup> 'a pyval) \<Rightarrow> string list \<Rightarrow> 'a pyval" where
  "first_given d keys = (case find (given d) keys of Some k \<Rightarrow> the (d k) | None \<Rightarrow> Omitted)"

definition accepting :: "string list \<Rightarrow> (int, unit) Field" where
  "accepting keys = (accept_any [])\<lparr>accepts := keys\<rparr>"

section \<open>The round trip and the fixture of the tests\<close>

text \<open>\<open>serialize(clean(schema(cls), data, context))\<close>, with the exceptions on the way.\<close>

definition round_trip :: "('a, 'c) cls \<Rightarrow> 'a data \<Rightarrow> 'c \<Rightarrow> exn + (string \<rightharpoonup> 'a pyval)" where
  "round_trip cls data context =
     (case schema cls of
        Inl e \<Rightarrow> Inl e
      | Inr sch \<Rightarrow>
          (case clean sch data context of
             Inl e \<Rightarrow> Inl e
           | Inr result \<Rightarrow> serialize result))"

text \<open>The class of the tests' fixture \<open>example_schema\<close>: \<open>myint\<close> accepts the keys
  \<open>myint\<close> and \<open>deprecated_int\<close>, \<open>mylowint\<close> wants an integer below 5.\<close>

definition mylowint :: "(int, unit) Field" where
  "mylowint =
     \<lparr>depends_on = [], accepts = [],
      run_validators = (\<lambda>fld v ctx rs.
         case v of
           Obj i \<Rightarrow> if i < 5 then Value (Obj i) else Errors (Error ''Needs to be less than 5'' fld) []
         | _ \<Rightarrow> Errors (Error ''Not an integer.'' fld) []),
      serialize_to = None, serialize_func = (\<lambda>v. v)\<rparr>"

definition example_schema :: "(int, unit) cls" where
  "example_schema =
     [(''myint'', FieldDef (accepting [''myint'', ''deprecated_int''])),
      (''mylowint'', FieldDef mylowint)]"


section \<open>Nullability policy and validator chain\<close>

text \<open>
  Modelled from the spec: \<open>Field.run_validators\<close>, \<open>Required\<close>, \<open>Optional\<close> and \<open>simple_field\<close>
  of \<open>cleancat/chausie/field.py\<close>, which is not under src/ (spec 4.1 and 4.2; the two messages
  are those the tests of \<open>TestNullability\<close> expect). The policy is applied before the chain:
  an omitted or null value never reaches a validator. The chain calls the validators in order,
  each on the value the one before it returned, and stops at the first Error, which it puts
  under the field's path. The second component counts the validator calls.
\<close>

datatype nullability = Required | Optional

type_synonym ('a, 'c) validator = "'a pyval \<Rightarrow> 'c \<Rightarrow> 'a results \<Rightarrow> 'a outcome"

definition wrap_error :: "string list \<Rightarrow> error \<Rightarrow> error" where
  "wrap_error fld e = Error (msg e) (fld @ field e)"

fun run_chain ::
  "('a, 'c) validator list \<Rightarrow> string list \<Rightarrow> 'a pyval \<Rightarrow> 'c \<Rightarrow> 'a results
     \<Rightarrow> 'a outcome \<times> nat" where
  "run_chain [] fld val ctx rs = (Value val, 0)"
| "run_chain (validate # rest) fld val ctx rs =
     (case validate val ctx rs of
        Value v \<Rightarrow> (let (out, calls) = run_chain rest fld v ctx rs in (out, Suc calls))
      | Errors e es \<Rightarrow> (Errors (wrap_error fld e) (map (wrap_error fld) es), 1))"

definition apply_policy ::
  "nullability \<Rightarrow> ('a, 'c) validator list \<Rightarrow> string list \<Rightarrow> 'a pyval \<Rightarrow> 'c \<Rightarrow> 'a results
     \<Rightarrow> 'a outcome \<times> nat" where
  "apply_policy policy parents fld val ctx rs =
     (if val = Omitted then
        (case policy of
           Required \<Rightarrow> (Errors (Error ''Value is required.'' fld) [], 0)
         | Optional \<Rightarrow> (Value Omitted, 0))
      else if val = PyNone then
        (case policy of
           Required \<Rightarrow> (Errors (Error ''Value is required, and must not be None.'' fld) [], 0)
         | Optional \<Rightarrow> (Value PyNone, 0))
      else run_chain parents fld val ctx rs)"

definition simple_field :: "('a, 'c) validator list \<Rightarrow> nullability \<Rightarrow> ('a, 'c) Field" where
  "simple_field parents policy =
     \<lparr>depends_on = [], accepts = [],
      run_validators = (\<lambda>fld val ctx rs. fst (apply_policy policy parents fld val ctx rs)),
      serialize_to = None, serialize_func = (\<lambda>v. v)\<rparr>"

section \<open>What holds of the results while the loop runs\<close>

text \<open>Every entry of \<open>results\<close> was computed by the \<open>run_validators\<close> of a field of that
  name, from the value read for it and the entries before it (the \<open>intermediate_results\<close> of
  the call), all of whose dependencies had a Value then: the entries stand in the order in
  which the fields were evaluated.\<close>

definition computed :: "('a, 'c) fields \<Rightarrow> 'a data \<Rightarrow> 'c \<Rightarrow> 'a results \<Rightarrow> bool" where
  "computed F data ctx R =
     (\<forall>i<length R. \<exists>f val. (fst (R ! i), f) \<in> set F
        \<and> read_value data (fst (R ! i)) f = Some val
        \<and> snd (R ! i) = run_validators f [fst (R ! i)] val ctx (take i R)
        \<and> list_all (has_value (take i R)) (depends_on f))"

text \<open>The invariant of the \<open>while\<close> loop, for the fields \<open>F\<close> of the class: queue and
  results name different fields, each once; a queued field has all its dependencies as Values;
  a field neither evaluated nor queued still misses the Value of a dependency.\<close>

definition loop_inv ::
  "('a, 'c) fields \<Rightarrow> 'a data \<Rightarrow> 'c \<Rightarrow> ('a, 'c) fields \<Rightarrow> 'a results \<Rightarrow> bool" where
  "loop_inv F data ctx Q R =
     (distinct (map fst Q) \<and> fst ` set Q \<inter> fst ` set R = {} \<and> distinct (map fst R)
      \<and> set Q \<subseteq> set F
      \<and> (\<forall>(n, f) \<in> set Q. list_all (has_value R) (depends_on f))
      \<and> computed F data ctx R
      \<and> (\<forall>(n, f) \<in> set F. n \<in> fst ` set R \<or> n \<in> fst ` set Q
            \<or> \<not> list_all (has_value R) (depends_on f)))"

section \<open>Fields of a class\<close>

lemma distinct_class_dict: "distinct (map fst (class_dict body))"
proof -
  have "distinct (map fst d) \<Longrightarrow>
      distinct (map fst (fold (\<lambda>(name, m) d. AList.update name m d) body d))"
    for d :: "(string \<times> ('a, 'b) member) list"
    by (induction body arbitrary: d) (auto simp: distinct_update)
  then show ?thesis by (simp add: class_dict_def)
qed

lemma the_fields_keys: "fst ` set (the_fields d) \<subseteq> fst ` set d"
  by (induction d rule: the_fields.induct) auto

lemma distinct_the_fields: "distinct (map fst d) \<Longrightarrow> distinct (map fst (the_fields d))"
proof (induction d rule: the_fields.induct)
  case (2 field_name field_def rest)
  then have "field_name \<notin> fst ` set rest" by simp
  with the_fields_keys[of rest] have "field_name \<notin> fst ` set (the_fields rest)" by blast
  with 2 show ?case by simp
qed simp_all

lemma distinct_get_fields: "distinct (map fst (get_fields cls))"
  by (simp add: get_fields_def distinct_the_fields distinct_class_dict)

lemma get_fields_cyclic_cls:
  "get_fields cyclic_cls = [(''a'', accept_any [''b'']), (''b'', accept_any [''a''])]"
  by (simp add: get_fields_def class_dict_def cyclic_cls_def)

lemma get_fields_dangling_cls:
  "get_fields dangling_cls = [(''a'', accept_any []), (''b'', accept_any [''zzz''])]"
  by (simp add: get_fields_def class_dict_def dangling_cls_def)

section \<open>The dependency check rejects what cannot be resolved\<close>

lemma find_Some_mem: "find P xs = Some x \<Longrightarrow> x \<in> set xs \<and> P x"
  by (induction xs) (auto split: if_splits)

lemma find_resolvable:
  "find (resolvable seen) deps = Some (f_name, f_deps) \<Longrightarrow>
     (f_name, f_deps) \<in> set deps \<and> (\<forall>d \<in> set f_deps. d \<in> set seen)"
  by (drule find_Some_mem) (auto simp: resolvable_def list_all_iff)

text \<open>A set \<open>B\<close> of names blocks the loop when no name of \<open>B\<close> is seen yet and every
  pending field of \<open>B\<close> waits for a name of \<open>B\<close>: no field of \<open>B\<close> is ever picked, so a
  pending field of \<open>B\<close> stays pending until a pass makes no progress.\<close>

lemma check_loop_blocked:
  assumes "n \<in> B" "n \<in> fst ` set deps" "set seen \<inter> B = {}"
    and "\<And>m ds. (m, ds) \<in> set deps \<Longrightarrow> m \<in> B \<Longrightarrow> \<exists>d \<in> set ds. d \<in> B"
  shows "check_loop deps seen = Inl unresolved"
  using assms
proof (induction deps seen rule: check_loop.induct)
  case (1 deps seen)
  from "1.prems"(2) have ne: "deps \<noteq> []" by auto
  show ?case
  proof (cases "find (resolvable seen) deps")
    case None
    with ne show ?thesis by (subst check_loop.simps) simp
  next
    case (Some p)
    obtain f_name f_deps where p: "p = (f_name, f_deps)" by (cases p)
    from find_resolvable[OF Some[unfolded p]]
    have mem: "(f_name, f_deps) \<in> set deps" and seen: "\<forall>d \<in> set f_deps. d \<in> set seen"
      by auto
    have notB: "f_name \<notin> B"
    proof
      assume "f_name \<in> B"
      with "1.prems"(4)[OF mem] obtain d where "d \<in> set f_deps" "d \<in> B" by auto
      with seen "1.prems"(3) show False by auto
    qed
    show ?thesis
    proof (cases "length (List.insert f_name seen) = length seen")
      case True
      with ne Some p show ?thesis by (subst check_loop.simps) simp
    next
      case False
      have "check_loop (AList.delete f_name deps) (List.insert f_name seen) = Inl unresolved"
      proof (rule "1.IH"[OF ne refl Some p[symmetric] refl refl])
        show "length (List.insert f_name seen) \<noteq> length seen" using False .
        show "n \<in> B" by fact
        show "n \<in> fst ` set (AList.delete f_name deps)"
          using "1.prems"(1,2) notB by (force simp: AList.delete_eq)
        show "set (List.insert f_name seen) \<inter> B = {}"
          using "1.prems"(3) notB by auto
        show "\<And>m ds. (m, ds) \<in> set (AList.delete f_name deps) \<Longrightarrow> m \<in> B
            \<Longrightarrow> \<exists>d\<in>set ds. d \<in> B"
          using "1.prems"(4) by (auto simp: AList.delete_eq)
      qed
      with ne Some p False show ?thesis by (subst check_loop.simps) simp
    qed
  qed
qed

lemma check_blocked:
  assumes "n \<in> B" "n \<in> fst ` set (get_fields cls)"
    and "\<And>m f. (m, f) \<in> set (get_fields cls) \<Longrightarrow> m \<in> B
          \<Longrightarrow> \<exists>d \<in> set (depends_on f). d \<in> B"
  shows "schema cls = Inl unresolved"
proof -
  let ?deps = "map (\<lambda>(name, f_def). (name, remdups (depends_on f_def))) (get_fields cls)"
  have "check_loop ?deps [] = Inl unresolved"
  proof (rule check_loop_blocked[where n=n and B=B])
    show "n \<in> B" by fact
    show "n \<in> fst ` set ?deps"
      using assms(2) by force
    show "set [] \<inter> B = {}" by simp
    show "\<And>m ds. (m, ds) \<in> set ?deps \<Longrightarrow> m \<in> B \<Longrightarrow> \<exists>d\<in>set ds. d \<in> B"
      using assms(3) by auto
  qed
  then show ?thesis by (simp add: schema_def p_check_for_dependency_loops_def)
qed

text \<open>
  C4. A class whose fields depend on each other in a circle (a field reaches itself along
  declared dependencies, as in: a depends on b and b depends on a) is refused by \<open>schema\<close> with
  the dependency-resolution ValueError. \<open>schema\<close> returns no decorated class, so there is
  nothing to call \<open>clean\<close> on; the hypothesis reads the names and the dependencies only, and
  \<open>schema\<close> takes no input data.
\<close>

theorem circular_dependency_fails:
  assumes "(n, n) \<in> (depends (get_fields cls))\<^sup>+"
  shows "schema cls = Inl unresolved \<and> (\<forall>sch. schema cls \<noteq> Inr sch)"
proof -
  let ?R = "depends (get_fields cls)"
  let ?B = "{m. (m, n) \<in> ?R\<^sup>+}"
  have "schema cls = Inl unresolved"
  proof (rule check_blocked[where n=n and B="?B"])
    show "n \<in> ?B" using assms by simp
    from assms obtain k where "(n, k) \<in> ?R" by (blast dest: tranclD)
    then show "n \<in> fst ` set (get_fields cls)" by (force simp: depends_def)
  next
    fix m f assume mf: "(m, f) \<in> set (get_fields cls)" and "m \<in> ?B"
    then have "(m, n) \<in> ?R\<^sup>+" by simp
    then obtain k where k: "(m, k) \<in> ?R" "(k, n) \<in> ?R\<^sup>*"
      by (blast dest: tranclD)
    from k(1) obtain g where g: "(m, g) \<in> set (get_fields cls)" "k \<in> set (depends_on g)"
      by (auto simp: depends_def)
    from mf g(1) distinct_get_fields[of cls] have "g = f"
      by (meson eq_key_imp_eq_value)
    moreover from k(2) assms have "k \<in> ?B" by (simp add: rtrancl_trancl_trancl)
    ultimately show "\<exists>d \<in> set (depends_on f). d \<in> ?B" using g(2) by auto
  qed
  then show ?thesis by simp
qed

theorem circular_dependency_fails_witness:
  "(''a'', ''a'') \<in> (depends (get_fields cyclic_cls))\<^sup>+ \<and> schema cyclic_cls = Inl unresolved"
proof -
  have ab: "(''a'', ''b'') \<in> depends (get_fields cyclic_cls)"
    by (simp add: depends_def get_fields_cyclic_cls accept_any_def)
  have ba: "(''b'', ''a'') \<in> depends (get_fields cyclic_cls)"
    by (simp add: depends_def get_fields_cyclic_cls accept_any_def)
  from ab ba have h: "(''a'', ''a'') \<in> (depends (get_fields cyclic_cls))\<^sup>+"
    by (rule trancl_into_trancl[OF r_into_trancl])
  from circular_dependency_fails[OF h] h show ?thesis by simp
qed

text \<open>
  C10. A field that declares a dependency on a name that is no field of the class makes
  \<open>schema\<close> fail with the same dependency-resolution ValueError as a cycle.
\<close>

theorem undefined_dependency_fails:
  assumes "(name, f) \<in> set (get_fields cls)" "dep \<in> set (depends_on f)"
    "dep \<notin> fst ` set (get_fields cls)"
  shows "schema cls = Inl unresolved"
proof (rule check_blocked[where n=name and B="{name, dep}"])
  show "name \<in> {name, dep}" by simp
  show "name \<in> fst ` set (get_fields cls)" using assms(1) by force
next
  fix m g assume mg: "(m, g) \<in> set (get_fields cls)" and "m \<in> {name, dep}"
  with assms(3) have "m = name" by force
  with mg assms(1) distinct_get_fields[of cls] have "g = f"
    by (meson eq_key_imp_eq_value)
  with assms(2) show "\<exists>d \<in> set (depends_on g). d \<in> {name, dep}" by auto
qed

theorem undefined_dependency_fails_witness:
  "(''b'', accept_any [''zzz'']) \<in> set (get_fields dangling_cls)
   \<and> ''zzz'' \<in> set (depends_on (accept_any [''zzz'']))
   \<and> ''zzz'' \<notin> fst ` set (get_fields dangling_cls)
   \<and> schema dangling_cls = Inl unresolved"
proof -
  have 1: "(''b'', accept_any [''zzz'']) \<in> set (get_fields dangling_cls)"
    by (simp add: get_fields_dangling_cls)
  have 2: "''zzz'' \<in> set (depends_on (accept_any [''zzz'']))"
    by (simp add: accept_any_def)
  have 3: "''zzz'' \<notin> fst ` set (get_fields dangling_cls)"
    by (simp add: get_fields_dangling_cls)
  from undefined_dependency_fails[OF 1 2 3] 1 2 3 show ?thesis by simp
qed

section \<open>getter on an object that is not a dict\<close>

text \<open>
  C8. For an object that is not a dict and carries the attribute \<open>myint = 100\<close>,
  \<open>getter(obj, 'myint', omitted)\<close> returns \<open>None\<close>, where \<open>getattr(obj, 'myint', omitted)\<close>
  is 100: the \<open>else\<close> branch of \<open>getter\<close> has no \<open>return\<close>.
\<close>

theorem getter_object_returns_None:
  "getter (Object [''myint'' \<mapsto> Obj (100::int)]) ''myint'' Omitted = PyNone
   \<and> getattr [''myint'' \<mapsto> Obj (100::int)] ''myint'' Omitted = Obj 100"
  by (simp add: getattr_def)


section \<open>The raw value of a field\<close>

lemma accept_loop_dict:
  "accept_loop (Dict d) keys val = (if keys = [] then val else Some (first_given d keys))"
  by (induction keys arbitrary: val) (auto simp: first_given_def given_def split: option.splits)

text \<open>
  C6, as the code has it. For a dict input, the raw value of a field is the value of the first
  of its accepted keys (its own name when it declares none) that the dict maps to something
  other than the \<open>omitted\<close> sentinel, and \<open>omitted\<close> when there is none. In particular the
  field \<open>myint\<close> accepting \<open>myint\<close> and \<open>deprecated_int\<close> reads 100 from
  \<open>{'deprecated_int': 100, 'mylowint': 2}\<close>.
\<close>

theorem read_value_dict:
  "read_value (Dict d) field_name field_def =
      Some (first_given d (if accepts field_def = [] then [field_name] else accepts field_def))
   \<and> read_value (Dict [''deprecated_int'' \<mapsto> Obj 100, ''mylowint'' \<mapsto> Obj 2]) ''myint''
        (accepting [''myint'', ''deprecated_int'']) = Some (Obj 100)"
  by (simp add: read_value_def accept_loop_dict first_given_def given_def accepting_def
      accept_any_def)

text \<open>
  C6, as the claim words it, fails where a key is present with the \<open>omitted\<close> sentinel as its
  value: for \<open>{'a': omitted, 'b': 5}\<close> and the accepted keys \<open>a, b\<close> the first key present is
  \<open>a\<close>, whose value is \<open>omitted\<close>, and the code reads 5 from \<open>b\<close>.
\<close>

theorem read_value_first_present_counterexample:
  "read_value (Dict [''a'' \<mapsto> Omitted, ''b'' \<mapsto> Obj 5]) ''a'' (accepting [''a'', ''b''])
     = Some (Obj 5)
   \<and> claimed_first_present [''a'' \<mapsto> Omitted, ''b'' \<mapsto> Obj (5::int)] [''a'', ''b''] = Omitted"
  by (simp add: read_value_def claimed_first_present_def accepting_def accept_any_def)

section \<open>A class with one field\<close>

lemma get_fields_single: "get_fields [(name, FieldDef f)] = [(name, f)]"
  by (simp add: get_fields_def class_dict_def)

lemma clean_single:
  "depends_on f = [] \<Longrightarrow> read_value data name f = Some val \<Longrightarrow>
   p_clean [(name, FieldDef f)] data ctx =
     (case run_validators f [name] val ctx [] of
        Value v \<Rightarrow> Inr (Instance [(name, FieldDef f)] [name \<mapsto> v])
      | Errors e es \<Rightarrow> Inr (ValidationError (e # es)))"
  apply (simp add: p_clean_def run_loop_def get_fields_single)
  apply (subst eval_loop.simps, simp)
  apply (subst eval_loop.simps,
      simp add: collect_errors_def p_new_init_def get_fields_single split: outcome.splits)
  done

text \<open>
  C5. Under Required, an omitted value gives the Error "Value is required." and a null value
  the different Error "Value is required, and must not be None."; under Optional, an omitted
  value gives a Value of the \<open>omitted\<close> sentinel and a null value a Value of \<open>None\<close>. In all
  four cases no validator of the chain is called (the call count is 0, whatever the chain).
  Through \<open>clean\<close>, for a class with one such field: an input without the key and an input
  with the key set to \<open>None\<close> give these Errors in a ValidationError, or these payloads as the
  attribute of the instance.
\<close>

theorem nullability_policy:
  "apply_policy Required parents fld Omitted ctx rs
       = (Errors (Error ''Value is required.'' fld) [], 0)
   \<and> apply_policy Required parents fld PyNone ctx rs
       = (Errors (Error ''Value is required, and must not be None.'' fld) [], 0)
   \<and> ''Value is required.'' \<noteq> ''Value is required, and must not be None.''
   \<and> apply_policy Optional parents fld Omitted ctx rs = (Value Omitted, 0)
   \<and> apply_policy Optional parents fld PyNone ctx rs = (Value PyNone, 0)
   \<and> p_clean [(name, FieldDef (simple_field parents Required))] (Dict Map.empty) ctx
       = Inr (ValidationError [Error ''Value is required.'' [name]])
   \<and> p_clean [(name, FieldDef (simple_field parents Required))] (Dict [name \<mapsto> PyNone]) ctx
       = Inr (ValidationError [Error ''Value is required, and must not be None.'' [name]])
   \<and> p_clean [(name, FieldDef (simple_field parents Optional))] (Dict Map.empty) ctx
       = Inr (Instance [(name, FieldDef (simple_field parents Optional))] [name \<mapsto> Omitted])
   \<and> p_clean [(name, FieldDef (simple_field parents Optional))] (Dict [name \<mapsto> PyNone]) ctx
       = Inr (Instance [(name, FieldDef (simple_field parents Optional))] [name \<mapsto> PyNone])"
proof -
  have r: "read_value (Dict Map.empty) name (simple_field parents p) = Some Omitted"
    "read_value (Dict [name \<mapsto> PyNone]) name (simple_field parents p) = Some PyNone" for p
    by (simp_all add: read_value_def simple_field_def)
  have d: "depends_on (simple_field parents p) = []" for p
    by (simp add: simple_field_def)
  have v: "run_validators (simple_field parents p)
      = (\<lambda>fld val ctx rs. fst (apply_policy p parents fld val ctx rs))" for p
    by (simp add: simple_field_def)
  show ?thesis
    by (simp add: clean_single[OF d r(1)] clean_single[OF d r(2)] v apply_policy_def)
qed


section \<open>The loop returns, and keeps its invariant\<close>

lemma update_fresh: "k \<notin> fst ` set al \<Longrightarrow> AList.update k v al = al @ [(k, v)]"
  by (induction al) auto

lemma has_value_keys: "has_value R d \<Longrightarrow> d \<in> fst ` set R"
  by (auto simp: has_value_def split: option.splits dest: map_of_SomeD intro: rev_image_eqI)

lemma has_value_append: "has_value R d \<Longrightarrow> has_value (R @ X) d"
  by (auto simp: has_value_def map_add_def split: option.splits outcome.splits)

lemma has_value_take: "has_value (take i R) d \<Longrightarrow> has_value R d"
  using has_value_append[of "take i R" d "drop i R"] by simp

lemma read_value_Some: "\<exists>val. read_value data name f = Some val"
proof -
  have "keys \<noteq> [] \<or> val \<noteq> None \<Longrightarrow> \<exists>v. accept_loop data keys val = Some v" for keys val
    by (induction keys arbitrary: val) (auto simp: Let_def)
  then show ?thesis by (simp add: read_value_def Let_def)
qed

lemma computed_snoc:
  assumes "computed F data ctx R" "(n, f) \<in> set F" "read_value data n f = Some val"
    "list_all (has_value R) (depends_on f)"
  shows "computed F data ctx (R @ [(n, run_validators f [n] val ctx R)])"
  unfolding computed_def
proof (intro allI impI)
  fix i assume "i < length (R @ [(n, run_validators f [n] val ctx R)])"
  then consider "i < length R" | "i = length R" by fastforce
  then show "\<exists>g v. (fst ((R @ [(n, run_validators f [n] val ctx R)]) ! i), g) \<in> set F
        \<and> read_value data (fst ((R @ [(n, run_validators f [n] val ctx R)]) ! i)) g = Some v
        \<and> snd ((R @ [(n, run_validators f [n] val ctx R)]) ! i)
            = run_validators g [fst ((R @ [(n, run_validators f [n] val ctx R)]) ! i)] v ctx
                (take i (R @ [(n, run_validators f [n] val ctx R)]))
        \<and> list_all (has_value (take i (R @ [(n, run_validators f [n] val ctx R)]))) (depends_on g)"
  proof cases
    case 1
    with assms(1) show ?thesis by (simp add: computed_def nth_append)
  next
    case 2
    with assms(2-4) show ?thesis by (auto simp: nth_append)
  qed
qed

lemma step_inv:
  assumes dF: "distinct (map fst F)"
    and D: "D = filter (\<lambda>(n, f). depends_on f \<noteq> []) F"
    and inv: "loop_inv F data ctx Q R"
    and ne: "Q \<noteq> []"
    and rv: "read_value data (fst (last Q)) (snd (last Q)) = Some val"
  shows "loop_inv F data ctx
           (butlast Q @ filter (eligible
               (AList.update (fst (last Q)) (run_validators (snd (last Q)) [fst (last Q)] val ctx R) R)
               (map fst (butlast Q))) D)
           (AList.update (fst (last Q)) (run_validators (snd (last Q)) [fst (last Q)] val ctx R) R)"
proof -
  obtain n f where nf: "last Q = (n, f)" by (cases "last Q")
  define P where "P = butlast Q"
  define out where "out = run_validators f [n] val ctx R"
  define R' where "R' = R @ [(n, out)]"
  define A where "A = filter (eligible R' (map fst P)) D"
  have Q: "Q = P @ [(n, f)]" using ne nf by (simp add: P_def flip: nf)
  from inv have i1: "distinct (map fst Q)" and i2: "fst ` set Q \<inter> fst ` set R = {}"
    and i3: "distinct (map fst R)" and i4: "set Q \<subseteq> set F"
    and i5: "\<forall>(n, f) \<in> set Q. list_all (has_value R) (depends_on f)"
    and i6: "computed F data ctx R"
    and i7: "\<forall>(n, f) \<in> set F. n \<in> fst ` set R \<or> n \<in> fst ` set Q
            \<or> \<not> list_all (has_value R) (depends_on f)"
    by (auto simp: loop_inv_def)
  have nR: "n \<notin> fst ` set R" using i2 Q by auto
  have nP: "n \<notin> fst ` set P" using i1 Q by auto
  have upd: "AList.update n out R = R'" using nR by (simp add: R'_def update_fresh)
  have keysR': "fst ` set R' = insert n (fst ` set R)" by (auto simp: R'_def)
  have mono: "has_value R d \<Longrightarrow> has_value R' d" for d
    by (simp add: R'_def has_value_append)
  have AD: "set A \<subseteq> set D" by (auto simp: A_def)
  have DF: "set D \<subseteq> set F" by (auto simp: D)
  have dD: "distinct (map fst D)" unfolding D using dF by (rule distinct_map_filter)
  have dA: "distinct (map fst A)" unfolding A_def using dD by (rule distinct_map_filter)
  have Aprop: "\<And>m g. (m, g) \<in> set A \<Longrightarrow> m \<notin> fst ` set R' \<and> m \<notin> fst ` set P
      \<and> list_all (has_value R') (depends_on g)"
    by (auto simp: A_def eligible_def)
  have Ax: "fst x \<notin> fst ` set R' \<and> fst x \<notin> fst ` set P" if "x \<in> set A" for x
    using that Aprop[of "fst x" "snd x"] by simp
  have PA: "fst ` set P \<inter> fst ` set A = {}"
  proof -
    have False if "m \<in> fst ` set P" "m \<in> fst ` set A" for m
    proof -
      from that(2) obtain g where "(m, g) \<in> set A" by auto
      from Aprop[OF this] that(1) show False by simp
    qed
    then show ?thesis by blast
  qed
  have dP: "distinct (map fst P)" using i1 by (simp add: Q)
  have c1: "distinct (map fst (P @ A))"
    using dP dA PA by simp
  have PR: "fst ` set P \<inter> fst ` set R' = {}"
    using i2 nP by (auto simp: Q keysR')
  have AR: "fst ` set A \<inter> fst ` set R' = {}"
  proof -
    have False if "m \<in> fst ` set R'" "m \<in> fst ` set A" for m
    proof -
      from that(2) obtain g where "(m, g) \<in> set A" by auto
      from Aprop[OF this] that(1) show False by simp
    qed
    then show ?thesis by blast
  qed
  have c2: "fst ` set (P @ A) \<inter> fst ` set R' = {}"
    using PR AR by (simp add: image_Un Int_Un_distrib2)
  have c3: "distinct (map fst R')" using i3 nR by (simp add: R'_def)
  have c4: "set (P @ A) \<subseteq> set F" using i4 AD DF by (auto simp: Q)
  have c5: "\<forall>(m, g) \<in> set (P @ A). list_all (has_value R') (depends_on g)"
  proof (intro ballI, clarify)
    fix m g assume "(m, g) \<in> set (P @ A)"
    then consider "(m, g) \<in> set P" | "(m, g) \<in> set A" by auto
    then show "list_all (has_value R') (depends_on g)"
    proof cases
      case 1
      with i5 have "list_all (has_value R) (depends_on g)" by (auto simp: Q)
      with mono show ?thesis by (simp add: list_all_iff)
    next
      case 2
      with Aprop show ?thesis by simp
    qed
  qed
  have c6: "computed F data ctx R'"
    unfolding R'_def out_def
  proof (rule computed_snoc[OF i6])
    show "(n, f) \<in> set F" using i4 Q by auto
    show "read_value data n f = Some val" using rv nf by simp
    show "list_all (has_value R) (depends_on f)" using i5 Q by auto
  qed
  have c7: "\<forall>(m, g) \<in> set F. m \<in> fst ` set R' \<or> m \<in> fst ` set (P @ A)
            \<or> \<not> list_all (has_value R') (depends_on g)"
  proof (intro ballI, clarify)
    fix m g assume mg: "(m, g) \<in> set F" and a: "m \<notin> fst ` set R'"
      and b: "m \<notin> fst ` set (P @ A)" and c: "list_all (has_value R') (depends_on g)"
    from a keysR' have mR: "m \<notin> fst ` set R" and mn: "m \<noteq> n" by auto
    from b have mP: "m \<notin> fst ` set P" by auto
    with mn have "m \<notin> fst ` set Q" by (auto simp: Q)
    with i7 mg mR have "\<not> list_all (has_value R) (depends_on g)" by auto
    then have "depends_on g \<noteq> []" by auto
    with mg have "(m, g) \<in> set D" by (simp add: D)
    with a mP c have "(m, g) \<in> set A" by (simp add: A_def eligible_def)
    with b show False by force
  qed
  have "loop_inv F data ctx (P @ A) R'"
    using c1 c2 c3 c4 c5 c6 c7 by (simp add: loop_inv_def)
  moreover have "AList.update n (run_validators f [n] val ctx R) R = R'"
    using upd by (simp add: out_def)
  ultimately show ?thesis
    by (simp add: nf P_def A_def)
qed

lemma eval_loop_inv:
  assumes "distinct (map fst F)" "D = filter (\<lambda>(n, f). depends_on f \<noteq> []) F"
    "loop_inv F data ctx Q R"
  shows "\<exists>R'. eval_loop D data ctx Q R = Inr R' \<and> loop_inv F data ctx [] R'"
  using assms
proof (induction D data ctx Q R rule: eval_loop.induct)
  case (1 D data ctx Q R)
  show ?case
  proof (cases "Q = []")
    case True
    with "1.prems"(3) show ?thesis by (subst eval_loop.simps) simp
  next
    case False
    obtain val where rv: "read_value data (fst (last Q)) (snd (last Q)) = Some val"
      using read_value_Some by blast
    let ?R' = "AList.update (fst (last Q)) (run_validators (snd (last Q)) [fst (last Q)] val ctx R) R"
    let ?Q' = "butlast Q @ filter (eligible ?R' (map fst (butlast Q))) D"
    have "loop_inv F data ctx ?Q' ?R'"
      by (rule step_inv[OF "1.prems"(1,2,3) False rv])
    from "1.IH"[OF False rv refl refl refl refl refl "1.prems"(1,2) this]
    obtain R'' where "eval_loop D data ctx ?Q' ?R' = Inr R''" "loop_inv F data ctx [] R''"
      by blast
    with False rv show ?thesis
      by (subst eval_loop.simps) (simp add: Let_def)
  qed
qed

lemma loop_inv_init:
  fixes F :: "('a, 'c) fields"
  assumes "distinct (map fst F)"
  shows "loop_inv F data ctx (filter (\<lambda>(n, f). depends_on f = []) F) []"
proof -
  have "distinct (map fst (filter (\<lambda>(n, f). depends_on f = []) F))"
    using assms by (rule distinct_map_filter)
  moreover have "\<forall>(n, f) \<in> set F. n \<in> fst ` set (filter (\<lambda>(n, f). depends_on f = []) F)
      \<or> \<not> list_all (has_value ([] :: 'a results)) (depends_on f)"
  proof -
    have "n \<in> fst ` set (filter (\<lambda>(n, f). depends_on f = []) F)"
      if nf: "(n, f) \<in> set F" and "list_all (has_value ([] :: 'a results)) (depends_on f)"
      for n f
    proof -
      from that(2) have "depends_on f = []"
        by (cases "depends_on f") (simp_all add: has_value_def)
      with nf have "(n, f) \<in> set (filter (\<lambda>(n, f). depends_on f = []) F)" by simp
      then show ?thesis
        by (rule image_eqI[rotated]) simp
    qed
    then show ?thesis by blast
  qed
  ultimately show ?thesis
    by (simp add: loop_inv_def computed_def subset_iff)
qed

lemma run_loop_inv:
  "\<exists>R. run_loop cls data ctx = Inr R \<and> loop_inv (get_fields cls) data ctx [] R"
proof -
  let ?F = "get_fields cls"
  have "length ?F = length (filter (\<lambda>(name, f). depends_on f = []) ?F)
      + length (filter (\<lambda>(name, f). depends_on f \<noteq> []) ?F)"
    using sum_length_filter_compl[of "\<lambda>(name, f). depends_on f = []" ?F]
    by (simp add: case_prod_unfold)
  moreover from eval_loop_inv[OF distinct_get_fields[of cls] refl
      loop_inv_init[OF distinct_get_fields[of cls]], of data ctx]
  obtain R where "eval_loop (filter (\<lambda>(n, f). depends_on f \<noteq> []) ?F) data ctx
      (filter (\<lambda>(n, f). depends_on f = []) ?F) [] = Inr R" "loop_inv ?F data ctx [] R"
    by blast
  ultimately show ?thesis
    by (simp add: run_loop_def Let_def)
qed


section \<open>What the results say once the loop is over\<close>

lemma computed_keys: "computed F data ctx R \<Longrightarrow> fst ` set R \<subseteq> fst ` set F"
proof
  fix n assume c: "computed F data ctx R" and "n \<in> fst ` set R"
  then obtain i where i: "i < length R" "fst (R ! i) = n"
    by (auto simp: in_set_conv_nth)
  with c obtain f where "(n, f) \<in> set F" by (auto simp: computed_def)
  then show "n \<in> fst ` set F" by force
qed

lemma computed_deps:
  assumes "computed F data ctx R" "distinct (map fst F)" "(n, f) \<in> set F" "i < length R"
    "fst (R ! i) = n"
  shows "list_all (has_value (take i R)) (depends_on f)"
proof -
  from assms(1,4,5) obtain g where g: "(n, g) \<in> set F"
    "list_all (has_value (take i R)) (depends_on g)"
    by (auto simp: computed_def)
  from g(1) assms(2,3) have "g = f" by (meson eq_key_imp_eq_value)
  with g(2) show ?thesis by simp
qed

lemma evaluated_has_deps:
  assumes "computed F data ctx R" "distinct (map fst F)" "(n, f) \<in> set F" "n \<in> fst ` set R"
  shows "list_all (has_value R) (depends_on f)"
proof -
  from assms(4) obtain i where i: "i < length R" "fst (R ! i) = n"
    by (auto simp: in_set_conv_nth)
  from computed_deps[OF assms(1-3) i] show ?thesis
    by (auto simp: list_all_iff intro: has_value_take)
qed

lemma value_in_results:
  assumes "distinct (map fst R)" "(d, Value v) \<in> set R"
  shows "has_value R d"
  using assms by (simp add: has_value_def)

lemma all_evaluated:
  assumes ok: "schema cls = Inr sch"
    and inv: "loop_inv (get_fields cls) data ctx [] R"
    and vals: "list_all is_Value (map snd R)"
  shows "fst ` set R = fst ` set (get_fields cls)"
proof (rule ccontr)
  let ?F = "get_fields cls"
  let ?B = "{m. m \<notin> fst ` set R}"
  assume neq: "fst ` set R \<noteq> fst ` set ?F"
  from inv have c: "computed ?F data ctx R" and dR: "distinct (map fst R)"
    and g: "\<forall>(n, f) \<in> set ?F. n \<in> fst ` set R \<or> \<not> list_all (has_value R) (depends_on f)"
    by (auto simp: loop_inv_def)
  from computed_keys[OF c] neq obtain n where n: "n \<in> fst ` set ?F" "n \<notin> fst ` set R"
    by blast
  have "schema cls = Inl unresolved"
  proof (rule check_blocked[where n=n and B="?B"])
    show "n \<in> ?B" using n by simp
    show "n \<in> fst ` set ?F" using n by simp
  next
    fix m f assume mf: "(m, f) \<in> set ?F" and "m \<in> ?B"
    with g have "\<not> list_all (has_value R) (depends_on f)" by auto
    then obtain d where d: "d \<in> set (depends_on f)" "\<not> has_value R d"
      by (auto simp: list_all_iff)
    have "d \<notin> fst ` set R"
    proof
      assume "d \<in> fst ` set R"
      then obtain out where out: "(d, out) \<in> set R" by auto
      with vals have "is_Value out" by (auto simp: list_all_iff)
      then obtain v where "out = Value v" by (cases out) auto
      with out dR have "has_value R d" by (simp add: value_in_results)
      with d(2) show False by simp
    qed
    with d(1) show "\<exists>d \<in> set (depends_on f). d \<in> ?B" by auto
  qed
  with ok show False by simp
qed

lemma collect_errors_Nil: "list_all is_Value (map snd R) \<Longrightarrow> collect_errors R = []"
  by (induction R) (auto simp: collect_errors_def)

lemma collect_errors_Cons: "\<not> list_all is_Value (map snd R) \<Longrightarrow> collect_errors R \<noteq> []"
proof (induction R)
  case (Cons x R)
  then show ?case by (cases "snd x") (auto simp: collect_errors_def)
qed simp

lemma kwargs_of_values:
  "list_all is_Value (map snd R) \<Longrightarrow>
     \<exists>kw. kwargs_of R = Inr kw \<and> map fst kw = map fst R
        \<and> (\<forall>k v. (k, v) \<in> set kw \<longleftrightarrow> (k, Value v) \<in> set R)"
proof (induction R)
  case Nil
  then show ?case by simp
next
  case (Cons x R)
  obtain k out where x: "x = (k, out)" by (cases x)
  with Cons.prems obtain v where out: "out = Value v" by (cases out) auto
  from Cons obtain kw where kw: "kwargs_of R = Inr kw" "map fst kw = map fst R"
    "\<forall>k v. (k, v) \<in> set kw \<longleftrightarrow> (k, Value v) \<in> set R" by auto
  show ?case
    by (rule exI[of _ "(k, v) # kw"]) (use kw x out in auto)
qed

lemma set_attrs:
  "distinct (map fst kw) \<Longrightarrow>
     fold (\<lambda>(k, v) self. self(k \<mapsto> v)) kw m = m ++ map_of kw"
proof (induction kw arbitrary: m)
  case Nil
  then show ?case by simp
next
  case (Cons x kw)
  obtain k v where x: "x = (k, v)" by (cases x)
  from Cons.prems x have "map_of kw k = None"
    by (simp add: map_of_eq_None_iff)
  then have "m(k \<mapsto> v) ++ map_of kw = m ++ map_of (x # kw)"
    by (intro ext) (auto simp: map_add_def x split: option.splits)
  moreover from Cons.prems have "distinct (map fst kw)" by simp
  ultimately show ?case using Cons.IH[of "m(k \<mapsto> v)"] by (simp only: fold_simps x case_prod_conv)
qed

lemma new_init_attrs:
  assumes "distinct (map fst kw)" "fst ` set kw \<subseteq> fst ` set (get_fields cls)"
  shows "p_new_init cls kw = map_of kw"
proof -
  have "fst x \<in> fst ` set (get_fields cls)" if "x \<in> set kw" for x
    using that assms(2) by blast
  then have "filter (\<lambda>(k, v). k \<in> fst ` set (get_fields cls)) kw = kw"
    by (intro filter_True) (simp add: case_prod_unfold)
  with assms(1) show ?thesis by (simp add: p_new_init_def set_attrs)
qed

section \<open>The result of clean\<close>

lemma schema_Inr: "schema cls = Inr sch \<Longrightarrow> sch = Schema cls"
  by (auto simp: schema_def split: sum.splits)

text \<open>
  C1. For a class that \<open>schema\<close> accepted and any input, the loop returns its results, each
  entry computed by \<open>run_validators\<close> from the entries before it (so the entries stand in
  evaluation order), and \<open>clean\<close> returns, never raises: a ValidationError exactly when an
  entry is not a Value, carrying the flattened Errors of those entries in the order of the
  entries and at least one Error; otherwise an instance whose attributes are exactly the
  fields of the class, each holding the payload of that field's Value.
\<close>

theorem clean_returns:
  assumes "schema cls = Inr sch"
  shows "\<exists>results. run_loop cls data ctx = Inr results
      \<and> computed (get_fields cls) data ctx results
      \<and> (if list_all is_Value (map snd results)
         then \<exists>self. clean sch data ctx = Inr (Instance cls self)
                \<and> dom self = fst ` set (get_fields cls)
                \<and> (\<forall>n \<in> fst ` set (get_fields cls).
                      \<exists>v. (n, Value v) \<in> set results \<and> self n = Some v)
         else clean sch data ctx
                = Inr (ValidationError
                    (concat (map flatten (filter (\<lambda>v. \<not> is_Value v) (map snd results)))))
              \<and> concat (map flatten (filter (\<lambda>v. \<not> is_Value v) (map snd results))) \<noteq> [])"
proof -
  let ?F = "get_fields cls"
  from run_loop_inv[of cls data ctx] obtain R where R: "run_loop cls data ctx = Inr R"
    and inv: "loop_inv ?F data ctx [] R" by blast
  from inv have c: "computed ?F data ctx R" and dR: "distinct (map fst R)"
    by (auto simp: loop_inv_def)
  have sch: "sch = Schema cls" using assms by (rule schema_Inr)
  have "if list_all is_Value (map snd R)
         then \<exists>self. clean sch data ctx = Inr (Instance cls self)
                \<and> dom self = fst ` set ?F
                \<and> (\<forall>n \<in> fst ` set ?F. \<exists>v. (n, Value v) \<in> set R \<and> self n = Some v)
         else clean sch data ctx
                = Inr (ValidationError
                    (concat (map flatten (filter (\<lambda>v. \<not> is_Value v) (map snd R)))))
              \<and> concat (map flatten (filter (\<lambda>v. \<not> is_Value v) (map snd R))) \<noteq> []"
  proof (cases "list_all is_Value (map snd R)")
    case True
    from kwargs_of_values[OF True] obtain kw where kw: "kwargs_of R = Inr kw"
      "map fst kw = map fst R" "\<forall>k v. (k, v) \<in> set kw \<longleftrightarrow> (k, Value v) \<in> set R" by blast
    have keys: "fst ` set R = fst ` set ?F"
      by (rule all_evaluated[OF assms inv True])
    have kwkeys: "fst ` set kw = fst ` set R"
      using kw(2) by (metis list.set_map)
    have dkw: "distinct (map fst kw)" using dR kw(2) by simp
    have attrs: "p_new_init cls kw = map_of kw"
      by (rule new_init_attrs[OF dkw]) (simp add: kwkeys keys)
    have cl: "clean sch data ctx = Inr (Instance cls (map_of kw))"
      by (simp add: sch clean_def p_clean_def R collect_errors_Nil[OF True] kw(1) attrs)
    have dom: "dom (map_of kw) = fst ` set ?F"
      by (simp add: dom_map_of_conv_image_fst kwkeys keys)
    have vals: "\<exists>v. (n, Value v) \<in> set R \<and> map_of kw n = Some v" if "n \<in> fst ` set ?F" for n
    proof -
      from that keys kwkeys have "n \<in> fst ` set kw" by simp
      then obtain v where v: "(n, v) \<in> set kw" by force
      with dkw have "map_of kw n = Some v" by simp
      with v kw(3) show ?thesis by auto
    qed
    show ?thesis
      unfolding if_P[OF True]
      by (intro exI[of _ "map_of kw"] conjI ballI cl dom vals)
  next
    case False
    from collect_errors_Cons[OF False] have "collect_errors R \<noteq> []" .
    with False show ?thesis
      by (simp add: sch clean_def p_clean_def R collect_errors_def)
  qed
  then show ?thesis
    by (intro exI[of _ R] conjI R c)
qed

text \<open>
  C2. In the results of one run of \<open>_clean\<close>, every dependency of an evaluated field had a
  Value among the entries before that field's own entry: the field was evaluated after all of
  them had produced a Value. A field one of whose dependencies produced an Error has no entry
  (it was never evaluated), and \<open>_clean\<close> then returns a ValidationError whose Errors are
  those flattened from the entries of the results, none of them the dependent field's.
\<close>

theorem dependent_waits:
  "\<exists>results. run_loop cls data ctx = Inr results
     \<and> (\<forall>i<length results. \<forall>f. (fst (results ! i), f) \<in> set (get_fields cls)
            \<longrightarrow> list_all (has_value (take i results)) (depends_on f))
     \<and> (\<forall>(n, f) \<in> set (get_fields cls).
            (\<exists>dep \<in> set (depends_on f). \<exists>e es. (dep, Errors e es) \<in> set results)
            \<longrightarrow> n \<notin> fst ` set results
                \<and> p_clean cls data ctx = Inr (ValidationError
                     (concat (map flatten (filter (\<lambda>v. \<not> is_Value v) (map snd results))))))"
proof -
  let ?F = "get_fields cls"
  from run_loop_inv[of cls data ctx] obtain R where R: "run_loop cls data ctx = Inr R"
    and inv: "loop_inv ?F data ctx [] R" by blast
  from inv have c: "computed ?F data ctx R" and dR: "distinct (map fst R)"
    by (auto simp: loop_inv_def)
  have 1: "list_all (has_value (take i R)) (depends_on f)"
    if "i < length R" "(fst (R ! i), f) \<in> set ?F" for i f
    using computed_deps[OF c distinct_get_fields that(2,1) refl] .
  have 2: "n \<notin> fst ` set R \<and> p_clean cls data ctx = Inr (ValidationError
                     (concat (map flatten (filter (\<lambda>v. \<not> is_Value v) (map snd R)))))"
    if nf: "(n, f) \<in> set ?F" and dep: "dep \<in> set (depends_on f)"
      and err: "(dep, Errors e es) \<in> set R" for n f dep e es
  proof
    from dR err have "map_of R dep = Some (Errors e es)" by simp
    then have nv: "\<not> has_value R dep" by (simp add: has_value_def)
    show "n \<notin> fst ` set R"
    proof
      assume "n \<in> fst ` set R"
      from evaluated_has_deps[OF c distinct_get_fields nf this] dep nv show False
        by (simp add: list_all_iff)
    qed
    from err have "\<not> list_all is_Value (map snd R)"
      by (force simp: list_all_iff)
    from collect_errors_Cons[OF this] show "p_clean cls data ctx = Inr (ValidationError
                     (concat (map flatten (filter (\<lambda>v. \<not> is_Value v) (map snd R)))))"
      by (simp add: p_clean_def R collect_errors_def)
  qed
  have 3: "\<forall>(n, f) \<in> set ?F.
            (\<exists>dep \<in> set (depends_on f). \<exists>e es. (dep, Errors e es) \<in> set R)
            \<longrightarrow> n \<notin> fst ` set R
                \<and> p_clean cls data ctx = Inr (ValidationError
                     (concat (map flatten (filter (\<lambda>v. \<not> is_Value v) (map snd R)))))"
  proof (rule ballI)
    fix x assume x: "x \<in> set ?F"
    obtain n f where xe: "x = (n, f)" by (cases x)
    have "(\<exists>dep \<in> set (depends_on f). \<exists>e es. (dep, Errors e es) \<in> set R)
            \<longrightarrow> n \<notin> fst ` set R
                \<and> p_clean cls data ctx = Inr (ValidationError
                     (concat (map flatten (filter (\<lambda>v. \<not> is_Value v) (map snd R)))))"
    proof (rule impI)
      assume "\<exists>dep \<in> set (depends_on f). \<exists>e es. (dep, Errors e es) \<in> set R"
      then obtain dep e es where "dep \<in> set (depends_on f)" "(dep, Errors e es) \<in> set R"
        by blast
      from 2[OF x[unfolded xe] this] show "n \<notin> fst ` set R
                \<and> p_clean cls data ctx = Inr (ValidationError
                     (concat (map flatten (filter (\<lambda>v. \<not> is_Value v) (map snd R)))))" .
    qed
    then show "case x of (n, f) \<Rightarrow>
            (\<exists>dep \<in> set (depends_on f). \<exists>e es. (dep, Errors e es) \<in> set R)
            \<longrightarrow> n \<notin> fst ` set R
                \<and> p_clean cls data ctx = Inr (ValidationError
                     (concat (map flatten (filter (\<lambda>v. \<not> is_Value v) (map snd R)))))"
      by (simp only: xe prod.case)
  qed
  show ?thesis
  proof (intro exI[of _ R] conjI allI impI)
    show "run_loop cls data ctx = Inr R" by fact
  next
    fix i f assume "i < length R" "(fst (R ! i), f) \<in> set ?F"
    then show "list_all (has_value (take i R)) (depends_on f)" by (rule 1)
  next
    show "\<forall>(n, f) \<in> set ?F.
            (\<exists>dep \<in> set (depends_on f). \<exists>e es. (dep, Errors e es) \<in> set R)
            \<longrightarrow> n \<notin> fst ` set R
                \<and> p_clean cls data ctx = Inr (ValidationError
                     (concat (map flatten (filter (\<lambda>v. \<not> is_Value v) (map snd R)))))"
      by (rule 3)
  qed
qed

text \<open>
  C3, as the code has it. After the loop, every entry of the results names a field of the
  class, no field has two entries, and a field has an entry exactly when each of its declared
  dependencies has a Value in the results (so always, for a field without dependencies); when
  all entries are Values and \<open>schema\<close> accepted the class, every field has its one entry.
\<close>

theorem outcome_iff_dependencies_valued:
  "\<exists>results. run_loop cls data ctx = Inr results
     \<and> distinct (map fst results)
     \<and> fst ` set results \<subseteq> fst ` set (get_fields cls)
     \<and> (\<forall>(n, f) \<in> set (get_fields cls).
            n \<in> fst ` set results \<longleftrightarrow> list_all (has_value results) (depends_on f))
     \<and> (list_all is_Value (map snd results) \<and> (\<exists>sch. schema cls = Inr sch)
            \<longrightarrow> fst ` set results = fst ` set (get_fields cls))"
proof -
  let ?F = "get_fields cls"
  from run_loop_inv[of cls data ctx] obtain R where R: "run_loop cls data ctx = Inr R"
    and inv: "loop_inv ?F data ctx [] R" by blast
  from inv have c: "computed ?F data ctx R" and dR: "distinct (map fst R)"
    and g: "\<forall>(n, f) \<in> set ?F. n \<in> fst ` set R \<or> \<not> list_all (has_value R) (depends_on f)"
    by (auto simp: loop_inv_def)
  have 1: "n \<in> fst ` set R \<longleftrightarrow> list_all (has_value R) (depends_on f)"
    if "(n, f) \<in> set ?F" for n f
    using evaluated_has_deps[OF c distinct_get_fields that] g that by auto
  have 2: "fst ` set R = fst ` set ?F"
    if "list_all is_Value (map snd R)" "schema cls = Inr sch" for sch
    using all_evaluated[OF that(2) inv that(1)] .
  have 3: "\<forall>(n, f) \<in> set ?F.
      n \<in> fst ` set R \<longleftrightarrow> list_all (has_value R) (depends_on f)"
  proof (rule ballI)
    fix x assume x: "x \<in> set ?F"
    obtain n f where xe: "x = (n, f)" by (cases x)
    from 1[OF x[unfolded xe]]
    show "case x of (n, f) \<Rightarrow>
        n \<in> fst ` set R \<longleftrightarrow> list_all (has_value R) (depends_on f)"
      by (simp only: xe prod.case)
  qed
  have 4: "list_all is_Value (map snd R) \<and> (\<exists>sch. schema cls = Inr sch)
            \<longrightarrow> fst ` set R = fst ` set ?F"
    using 2 by blast
  show ?thesis
    by (intro exI[of _ R] conjI R dR computed_keys[OF c] 3 4)
qed

section \<open>The example classes, run\<close>

lemma get_fields_chain_cls:
  "get_fields chain_cls = [(''a'', accept_any []), (''b'', accept_any [''a''])]"
  by (simp add: get_fields_def class_dict_def chain_cls_def)

lemma get_fields_blocked_cls:
  "get_fields blocked_cls = [(''a'', reject_all), (''b'', accept_any [''a''])]"
  by (simp add: get_fields_def class_dict_def blocked_cls_def)

lemma chain_cls_ok: "schema chain_cls = Inr (Schema chain_cls)"
  by (simp add: schema_def p_check_for_dependency_loops_def get_fields_chain_cls
      check_loop.simps resolvable_def accept_any_def AList.delete_eq)

lemma blocked_cls_ok: "schema blocked_cls = Inr (Schema blocked_cls)"
  by (simp add: schema_def p_check_for_dependency_loops_def get_fields_blocked_cls
      check_loop.simps resolvable_def accept_any_def reject_all_def AList.delete_eq)

lemma run_loop_chain_cls:
  "run_loop chain_cls sample_data () = Inr [(''a'', Value (Obj 1)), (''b'', Value (Obj 2))]"
  by (simp add: run_loop_def get_fields_chain_cls eval_loop.simps read_value_def accept_any_def
      eligible_def has_value_def sample_data_def Let_def)

lemma run_loop_blocked_cls:
  "run_loop blocked_cls sample_data () = Inr [(''a'', Errors (Error ''Invalid.'' [''a'']) [])]"
  by (simp add: run_loop_def get_fields_blocked_cls eval_loop.simps read_value_def accept_any_def
      reject_all_def eligible_def has_value_def sample_data_def Let_def)

theorem clean_returns_witness:
  "schema chain_cls = Inr (Schema chain_cls)
   \<and> (\<exists>self. clean (Schema chain_cls) sample_data () = Inr (Instance chain_cls self)
         \<and> self ''a'' = Some (Obj 1) \<and> self ''b'' = Some (Obj 2))"
proof -
  from clean_returns[OF chain_cls_ok, of sample_data "()"]
  obtain self where 1: "clean (Schema chain_cls) sample_data () = Inr (Instance chain_cls self)"
    and 2: "\<forall>n \<in> fst ` set (get_fields chain_cls).
        \<exists>v. (n, Value v) \<in> set [(''a'', Value (Obj 1)), (''b'', Value (Obj 2))] \<and> self n = Some v"
    by (auto simp: run_loop_chain_cls)
  from 2 have "self ''a'' = Some (Obj 1)" "self ''b'' = Some (Obj 2)"
    by (auto simp: get_fields_chain_cls)
  with 1 chain_cls_ok show ?thesis by blast
qed

theorem dependent_waits_witness:
  "(''b'', accept_any [''a'']) \<in> set (get_fields blocked_cls)
   \<and> ''a'' \<in> set (depends_on (accept_any [''a'']))
   \<and> run_loop blocked_cls sample_data () = Inr [(''a'', Errors (Error ''Invalid.'' [''a'']) [])]
   \<and> p_clean blocked_cls sample_data () = Inr (ValidationError [Error ''Invalid.'' [''a'']])"
proof -
  have b: "(''b'', accept_any [''a'']) \<in> set (get_fields blocked_cls)"
    by (simp add: get_fields_blocked_cls)
  have a: "''a'' \<in> set (depends_on (accept_any [''a'']))"
    by (simp add: accept_any_def)
  from dependent_waits[of blocked_cls sample_data "()"]
  have "\<forall>(n, f) \<in> set (get_fields blocked_cls).
            (\<exists>dep \<in> set (depends_on f). \<exists>e es.
                (dep, Errors e es) \<in> set [(''a'', Errors (Error ''Invalid.'' [''a'']) [])])
            \<longrightarrow> n \<notin> fst ` set [(''a'', Errors (Error ''Invalid.'' [''a'']) [])]
                \<and> p_clean blocked_cls sample_data () = Inr (ValidationError
                     (concat (map flatten (filter (\<lambda>v. \<not> is_Value v)
                        (map snd [(''a'', Errors (Error ''Invalid.'' [''a'']) [])])))))"
    by (simp add: run_loop_blocked_cls)
  with b a have "p_clean blocked_cls sample_data ()
      = Inr (ValidationError [Error ''Invalid.'' [''a'']])"
    by fastforce
  with a b run_loop_blocked_cls show ?thesis by blast
qed

text \<open>
  C3, as the claim words it, fails: in the class whose field \<open>b\<close> depends on \<open>a\<close> and whose
  \<open>a\<close> rejects its value, the loop ends with the one outcome of \<open>a\<close>, and the field \<open>b\<close>
  has none.
\<close>

theorem not_every_field_has_an_outcome_counterexample:
  "schema blocked_cls = Inr (Schema blocked_cls)
   \<and> run_loop blocked_cls sample_data () = Inr [(''a'', Errors (Error ''Invalid.'' [''a'']) [])]
   \<and> ''b'' \<in> fst ` set (get_fields blocked_cls)
   \<and> ''b'' \<notin> fst ` set [(''a'', Errors (Error ''Invalid.'' [''a'']) [] :: int outcome)]"
  by (simp add: blocked_cls_ok run_loop_blocked_cls get_fields_blocked_cls)

theorem outcome_iff_dependencies_valued_witness:
  "schema chain_cls = Inr (Schema chain_cls)
   \<and> (\<exists>results. run_loop chain_cls sample_data () = Inr results
        \<and> list_all is_Value (map snd results)
        \<and> fst ` set results = fst ` set (get_fields chain_cls))"
proof -
  from outcome_iff_dependencies_valued[of chain_cls sample_data "()"]
  have "list_all is_Value (map snd [(''a'', Value (Obj (1::int))), (''b'', Value (Obj 2))])
          \<and> (\<exists>sch. schema chain_cls = Inr sch)
        \<longrightarrow> fst ` set [(''a'', Value (Obj (1::int))), (''b'', Value (Obj 2))]
            = fst ` set (get_fields chain_cls)"
    by (simp add: run_loop_chain_cls)
  with chain_cls_ok have "fst ` set [(''a'', Value (Obj (1::int))), (''b'', Value (Obj 2))]
            = fst ` set (get_fields chain_cls)" by simp
  with chain_cls_ok run_loop_chain_cls show ?thesis by simp
qed


section \<open>serialize after clean\<close>

lemma serialize_fold:
  assumes "\<forall>(n, f) \<in> set F. output_key n f = n \<and> serialize_func f = (\<lambda>v. v)"
  shows "fold (\<lambda>(field_name, field_def) out.
             out(output_key field_name field_def \<mapsto>
                 serialize_func field_def (getattr self field_name (ClassAttr field_name))))
           F m
         = (\<lambda>k. if k \<in> fst ` set F then Some (getattr self k (ClassAttr k)) else m k)"
  using assms
proof (induction F arbitrary: m)
  case Nil
  then show ?case by simp
next
  case (Cons x F)
  obtain n f where x: "x = (n, f)" by (cases x)
  from Cons.prems x have nf: "output_key n f = n" "serialize_func f = (\<lambda>v. v)" by auto
  from Cons.prems have "\<forall>(n, f) \<in> set F. output_key n f = n \<and> serialize_func f = (\<lambda>v. v)"
    by simp
  from Cons.IH[OF this] show ?case
    by (auto simp: x nf fun_eq_iff)
qed

lemma p_serialize_identity:
  assumes "\<forall>(n, f) \<in> set (get_fields cls). output_key n f = n \<and> serialize_func f = (\<lambda>v. v)"
    and "dom self = fst ` set (get_fields cls)"
  shows "p_serialize cls self = self"
proof (rule ext)
  fix k
  have out: "p_serialize cls self
      = (\<lambda>k. if k \<in> fst ` set (get_fields cls) then Some (getattr self k (ClassAttr k))
             else None)"
    unfolding p_serialize_def by (rule serialize_fold[OF assms(1)])
  show "p_serialize cls self k = self k"
  proof (cases "k \<in> fst ` set (get_fields cls)")
    case True
    with assms(2) obtain v where "self k = Some v" by blast
    with True show ?thesis
      by (simp add: out getattr_def)
  next
    case False
    with assms(2) have "self k = None" by blast
    with False show ?thesis
      by (simp add: out)
  qed
qed

text \<open>
  C7, as the code has it. For a class that \<open>schema\<close> accepted, whose fields serialize under
  their own names with the identity transform, and a dict input whose keys are exactly the
  names of the fields and on which every field validates to a Value holding the input's own
  value under the field's name, \<open>serialize(clean(schema, data))\<close> is the input.
\<close>

theorem round_trip_identity:
  assumes ok: "schema cls = Inr sch"
    and idt: "\<forall>(n, f) \<in> set (get_fields cls). output_key n f = n \<and> serialize_func f = (\<lambda>v. v)"
    and run: "run_loop cls (Dict d) ctx = Inr results"
    and keys: "dom d = fst ` set (get_fields cls)"
    and same: "\<forall>n \<in> dom d. (n, Value (the (d n))) \<in> set results"
  shows "round_trip cls (Dict d) ctx = Inr d"
proof -
  let ?F = "get_fields cls"
  from run_loop_inv[of cls "Dict d" ctx] run
  have inv: "loop_inv ?F (Dict d) ctx [] results" by simp
  then have c: "computed ?F (Dict d) ctx results" and dR: "distinct (map fst results)"
    by (auto simp: loop_inv_def)
  have entry: "out = Value (the (d n))" if "(n, out) \<in> set results" for n out
  proof -
    from that computed_keys[OF c] keys have "n \<in> dom d" by force
    with same have "(n, Value (the (d n))) \<in> set results" by blast
    with that dR show ?thesis by (meson eq_key_imp_eq_value)
  qed
  have vals: "list_all is_Value (map snd results)"
    unfolding list_all_iff
  proof
    fix out assume "out \<in> set (map snd results)"
    then obtain n where "(n, out) \<in> set results" by auto
    from entry[OF this] show "is_Value out" by simp
  qed
  from clean_returns[OF ok, of "Dict d" ctx] run vals
  obtain self where cl: "clean sch (Dict d) ctx = Inr (Instance cls self)"
    and dom: "dom self = fst ` set ?F"
    and pay: "\<forall>n \<in> fst ` set ?F. \<exists>v. (n, Value v) \<in> set results \<and> self n = Some v"
    by auto
  have "self = d"
  proof (rule ext)
    fix n
    show "self n = d n"
    proof (cases "n \<in> fst ` set ?F")
      case True
      with pay obtain v where v: "(n, Value v) \<in> set results" "self n = Some v" by blast
      from entry[OF v(1)] have "v = the (d n)" by simp
      moreover from True keys obtain w where "d n = Some w" by blast
      ultimately show ?thesis using v(2) by simp
    next
      case False
      with dom keys have "self n = None" "d n = None" by blast+
      then show ?thesis by simp
    qed
  qed
  with dom have "p_serialize cls d = d"
    using p_serialize_identity[OF idt] by blast
  with cl \<open>self = d\<close> show ?thesis
    by (simp add: round_trip_def ok)
qed

lemma get_fields_example_schema:
  "get_fields example_schema
     = [(''myint'', accepting [''myint'', ''deprecated_int'']), (''mylowint'', mylowint)]"
  by (simp add: get_fields_def class_dict_def example_schema_def)

lemma example_schema_ok: "schema example_schema = Inr (Schema example_schema)"
  by (simp add: schema_def p_check_for_dependency_loops_def get_fields_example_schema
      check_loop.simps resolvable_def accepting_def accept_any_def mylowint_def AList.delete_eq)

lemma run_loop_example_schema:
  "run_loop example_schema (Dict [''myint'' \<mapsto> Obj 100, ''mylowint'' \<mapsto> Obj 2]) ()
     = Inr [(''mylowint'', Value (Obj 2)), (''myint'', Value (Obj 100))]"
  by (simp add: run_loop_def get_fields_example_schema eval_loop.simps read_value_def
      accepting_def accept_any_def mylowint_def eligible_def has_value_def Let_def)

theorem round_trip_identity_witness:
  "schema example_schema = Inr (Schema example_schema)
   \<and> round_trip example_schema (Dict [''myint'' \<mapsto> Obj 100, ''mylowint'' \<mapsto> Obj 2]) ()
       = Inr [''myint'' \<mapsto> Obj 100, ''mylowint'' \<mapsto> Obj 2]"
proof -
  have idt: "\<forall>(n, f) \<in> set (get_fields example_schema).
      output_key n f = n \<and> serialize_func f = (\<lambda>v. v)"
    by (simp add: get_fields_example_schema output_key_def accepting_def accept_any_def
        mylowint_def)
  have keys: "dom [''myint'' \<mapsto> Obj (100::int), ''mylowint'' \<mapsto> Obj 2]
      = fst ` set (get_fields example_schema)"
    by (auto simp: get_fields_example_schema)
  have same: "\<forall>n \<in> dom [''myint'' \<mapsto> Obj (100::int), ''mylowint'' \<mapsto> Obj 2].
      (n, Value (the ([''myint'' \<mapsto> Obj (100::int), ''mylowint'' \<mapsto> Obj 2] n)))
        \<in> set [(''mylowint'', Value (Obj 2)), (''myint'', Value (Obj 100))]"
    by auto
  from round_trip_identity[OF example_schema_ok idt run_loop_example_schema keys same]
    example_schema_ok
  show ?thesis by simp
qed

text \<open>
  C7, as the claim words it, fails: the fixture's class has identity transforms and no
  renames, all its fields validate on \<open>{'deprecated_int': 100, 'mylowint': 2}\<close>, and the
  round trip gives \<open>{'myint': 100, 'mylowint': 2}\<close>, which has the key \<open>myint\<close> that the
  input has not (what \<open>test_accepts\<close> expects).
\<close>

theorem round_trip_alternate_key_counterexample:
  "schema example_schema = Inr (Schema example_schema)
   \<and> output_key ''myint'' (accepting [''myint'', ''deprecated_int'']) = ''myint''
   \<and> output_key ''mylowint'' mylowint = ''mylowint''
   \<and> serialize_func (accepting [''myint'', ''deprecated_int'']) = id
   \<and> serialize_func mylowint = id
   \<and> round_trip example_schema (Dict [''deprecated_int'' \<mapsto> Obj 100, ''mylowint'' \<mapsto> Obj 2]) ()
       = Inr [''myint'' \<mapsto> Obj 100, ''mylowint'' \<mapsto> Obj 2]
   \<and> [''myint'' \<mapsto> Obj 100, ''mylowint'' \<mapsto> Obj 2] ''myint''
       \<noteq> [''deprecated_int'' \<mapsto> Obj (100::int), ''mylowint'' \<mapsto> Obj 2] ''myint''"
proof -
  have "run_loop example_schema (Dict [''deprecated_int'' \<mapsto> Obj 100, ''mylowint'' \<mapsto> Obj 2]) ()
     = Inr [(''mylowint'', Value (Obj 2)), (''myint'', Value (Obj 100))]"
    by (simp add: run_loop_def get_fields_example_schema eval_loop.simps read_value_def
      accepting_def accept_any_def mylowint_def eligible_def has_value_def Let_def)
  then have "round_trip example_schema
      (Dict [''deprecated_int'' \<mapsto> Obj 100, ''mylowint'' \<mapsto> Obj 2]) ()
       = Inr [''myint'' \<mapsto> Obj 100, ''mylowint'' \<mapsto> Obj 2]"
    by (simp add: round_trip_def example_schema_ok clean_def p_clean_def collect_errors_def
        p_new_init_def get_fields_example_schema p_serialize_def output_key_def getattr_def
        accepting_def accept_any_def mylowint_def fun_eq_iff)
  then show ?thesis
    by (simp add: example_schema_ok output_key_def accepting_def accept_any_def mylowint_def
        id_def)
qed

end
